theory Spec2Isabelle
  imports Main "HOL-Library.Word" "HOL-Library.Signed_Division" "HOL-Library.Sublist"
begin

unbundle bit_operations_syntax

section \<open>Data model of \<^verbatim>\<open>poly_exp.hpp\<close>\<close>

text \<open>
  The input is a \<^verbatim>\<open>std::vector<int>\<close>, modelled as an \<^typ>\<open>int list\<close> whose elements lie in
  the range of a 32-bit \<^verbatim>\<open>int\<close>. The additions that the program performs on element values
  (the accumulators of its sums) and the sum \<open>low + high\<close> of the split are modelled at that
  width: the result is reduced to 32 bits in two's complement (\<open>int32\<close>). The specification
  assumes that no sum leaves the range of the type; the theorems below carry that
  assumption as a hypothesis where they need it. Counters and indices are positions in the
  vector and are modelled without a width, which is exact for vectors of fewer than
  \<open>2\<^sup>3\<^sup>1 - 1\<close> elements.

  An iterator into the input is modelled by its offset from \<^verbatim>\<open>input.begin()\<close>.

  What stops the program is a value of type \<open>error\<close>: a failed \<^verbatim>\<open>assert\<close>, or an operation
  that C++ leaves undefined (reading the vector outside its bounds, walking an iterator
  range whose end lies before its start).
\<close>

datatype error = Assertion_Failed | Undefined_Behaviour

text \<open>
  The range of a 32-bit \<^verbatim>\<open>int\<close>, and the value that such an \<^verbatim>\<open>int\<close> holds after an operation
  whose result in the integers is \<open>x\<close>.
\<close>

definition int_range :: "int \<Rightarrow> bool" where
  "int_range x \<longleftrightarrow> - 2147483648 \<le> x \<and> x \<le> 2147483647"

definition int32 :: "int \<Rightarrow> int" where
  "int32 x = (x + 2147483648) mod 4294967296 - 2147483648"

text \<open>The class \<^verbatim>\<open>summed_span\<close> with its members \<^verbatim>\<open>begin_\<close>, \<^verbatim>\<open>end_\<close> and \<^verbatim>\<open>sum_\<close>.\<close>

record summed_span =
  span_begin :: int
  span_end :: int
  span_sum :: int

text \<open>
  The constructor \<^verbatim>\<open>summed_span(begin, end, sum)\<close>: it stores its arguments and asserts
  \<^verbatim>\<open>begin < end\<close>.
\<close>

definition summed_span3 :: "int \<Rightarrow> int \<Rightarrow> int \<Rightarrow> error + summed_span" where
  "summed_span3 b e s =
     (if b < e then Inr \<lparr>span_begin = b, span_end = e, span_sum = s\<rparr>
      else Inl Assertion_Failed)"

text \<open>
  \<^verbatim>\<open>std::accumulate(input.begin() + b, input.begin() + e, 0)\<close>: the elements from offset
  \<open>b\<close> up to offset \<open>e\<close> are added to the \<^verbatim>\<open>int\<close> 0 from left to right. The iterator range has to
  lie inside the vector, with its start not after its end.
\<close>

definition accumulate :: "int list \<Rightarrow> int \<Rightarrow> int \<Rightarrow> error + int" where
  "accumulate input b e =
     (if 0 \<le> b \<and> b \<le> e \<and> e \<le> int (length input)
      then Inr (foldl (\<lambda>acc v. int32 (acc + v)) 0
                  (take (nat (e - b)) (drop (nat b) input)))
      else Inl Undefined_Behaviour)"

text \<open>
  The constructor \<^verbatim>\<open>summed_span(begin, end)\<close> delegates to the three-argument one; the sum
  is computed first, the assertion is checked afterwards.
\<close>

definition summed_span2 :: "int list \<Rightarrow> int \<Rightarrow> int \<Rightarrow> error + summed_span" where
  "summed_span2 input b e =
     (case accumulate input b e of Inl err \<Rightarrow> Inl err | Inr s \<Rightarrow> summed_span3 b e s)"

text \<open>\<^verbatim>\<open>operator==\<close> compares the two iterators.\<close>

definition span_eq :: "summed_span \<Rightarrow> summed_span \<Rightarrow> bool" where
  "span_eq lhs rhs \<longleftrightarrow> span_begin lhs = span_begin rhs \<and> span_end lhs = span_end rhs"

text \<open>
  The arithmetic total of the elements of \<open>input\<close> at the positions \<open>b \<le> k < e\<close>; the
  reference value for the sum a span stores.
\<close>

definition range_total :: "int list \<Rightarrow> nat \<Rightarrow> nat \<Rightarrow> int" where
  "range_total input b e = sum_list (take (e - b) (drop b input))"

section \<open>Exhaustive maximum subarray\<close>

text \<open>
  The two summation loops of \<^verbatim>\<open>max_subarray_exh\<close>,
  \<^verbatim>\<open>for (int k = i; k < j; k++) sumItoJ += input[k];\<close> and the same over \<open>b\<close>, \<open>e\<close>.
  The accumulator is an \<^verbatim>\<open>int\<close>. The counters of this function are never negative and are
  modelled as naturals, which is exact for a vector of fewer than \<open>2\<^sup>3\<^sup>1 - 1\<close> elements; every
  index read lies below \<open>j \<le> n\<close> (or \<open>e \<le> n\<close>).
\<close>

function sum_loop :: "int list \<Rightarrow> nat \<Rightarrow> nat \<Rightarrow> int \<Rightarrow> int" where
  "sum_loop input k j acc =
     (if k < j then sum_loop input (k + 1) j (int32 (acc + input ! k)) else acc)"
  by pat_completeness auto
termination
  by (relation "measure (\<lambda>(input, k, j, acc). j - k)") auto

declare sum_loop.simps [simp del]

text \<open>
  The loop \<^verbatim>\<open>for (int j = i + 1; j <= n; j++)\<close> with the current best \<open>(b, e)\<close> as its state.
\<close>

function exh_inner :: "int list \<Rightarrow> nat \<Rightarrow> nat \<Rightarrow> nat \<times> nat \<Rightarrow> nat \<times> nat" where
  "exh_inner input i j (b, e) =
     (if j \<le> length input then
        (let sumItoJ = sum_loop input i j 0;
             sumBtoE = sum_loop input b e 0
         in exh_inner input i (j + 1) (if sumItoJ > sumBtoE then (i, j) else (b, e)))
      else (b, e))"
  by pat_completeness auto
termination
  by (relation "measure (\<lambda>(input, i, j, be). length input + 1 - j)") auto

declare exh_inner.simps [simp del]

text \<open>The loop \<^verbatim>\<open>for (size_t i = 0; i <= n - 1; i++)\<close>.\<close>

function exh_outer :: "int list \<Rightarrow> nat \<Rightarrow> nat \<times> nat \<Rightarrow> nat \<times> nat" where
  "exh_outer input i be =
     (if int i \<le> int (length input) - 1
      then exh_outer input (i + 1) (exh_inner input i (i + 1) be)
      else be)"
  by pat_completeness auto
termination
  by (relation "measure (\<lambda>(input, i, be). length input - i)") auto

declare exh_outer.simps [simp del]

definition max_subarray_exh :: "int list \<Rightarrow> error + summed_span" where
  "max_subarray_exh input =
     (if input = [] then Inl Assertion_Failed
      else
        (case exh_outer input 0 (0, 1) of
           (b, e) \<Rightarrow>
             if e = length input then summed_span2 input (int b) (int (length input))
             else summed_span2 input (int b) (int e)))"

section \<open>Decrease-by-half maximum subarray\<close>

text \<open>
  The leftward scan of \<^verbatim>\<open>crossing_max_subarray\<close>,
  \<^verbatim>\<open>for (int i = middle; i >= low; i--)\<close>, with the state \<open>trueSum\<close>, \<open>sumL\<close>, \<open>b\<close>; it
  returns \<open>(sumL, b)\<close>. The indices of this part of the program are C++ \<^verbatim>\<open>int\<close>s supplied by
  the caller, so they are integers here and every read of the vector is checked.
\<close>

function crossing_left ::
  "int list \<Rightarrow> int \<Rightarrow> int \<Rightarrow> int \<Rightarrow> int \<Rightarrow> int \<Rightarrow> error + int \<times> int" where
  "crossing_left input low i trueSum sumL b =
     (if i \<ge> low then
        (if 0 \<le> i \<and> i < int (length input) then
           (let trueSum' = int32 (trueSum + input ! nat i) in
            if trueSum' > sumL then crossing_left input low (i - 1) trueSum' trueSum' i
            else crossing_left input low (i - 1) trueSum' sumL b)
         else Inl Undefined_Behaviour)
      else Inr (sumL, b))"
  by pat_completeness auto
termination
  by (relation "measure (\<lambda>(input, low, i, trueSum, sumL, b). nat (i - low + 1))") auto

declare crossing_left.simps [simp del]

text \<open>The rightward scan, \<^verbatim>\<open>for (int j = middle + 1; j <= high; j++)\<close>; it returns \<open>(sumR, e)\<close>.\<close>

function crossing_right ::
  "int list \<Rightarrow> int \<Rightarrow> int \<Rightarrow> int \<Rightarrow> int \<Rightarrow> int \<Rightarrow> error + int \<times> int" where
  "crossing_right input high j trueSum sumR e =
     (if j \<le> high then
        (if 0 \<le> j \<and> j < int (length input) then
           (let trueSum' = int32 (trueSum + input ! nat j) in
            if trueSum' > sumR then crossing_right input high (j + 1) trueSum' trueSum' j
            else crossing_right input high (j + 1) trueSum' sumR e)
         else Inl Undefined_Behaviour)
      else Inr (sumR, e))"
  by pat_completeness auto
termination
  by (relation "measure (\<lambda>(input, high, j, trueSum, sumR, e). nat (high - j + 1))") auto

declare crossing_right.simps [simp del]

text \<open>
  \<^verbatim>\<open>crossing_max_subarray\<close>: both running maxima start at \<open>-99999999\<close>, \<open>b\<close> and \<open>e\<close> start at 0,
  and the span from \<open>b\<close> to \<open>e + 1\<close> is built with the summing constructor.
\<close>

definition crossing_max_subarray :: "int list \<Rightarrow> int \<Rightarrow> int \<Rightarrow> int \<Rightarrow> error + summed_span" where
  "crossing_max_subarray input low middle high =
     (case crossing_left input low middle 0 (- 99999999) 0 of
        Inl err \<Rightarrow> Inl err
      | Inr (sumL, b) \<Rightarrow>
          (case crossing_right input high (middle + 1) 0 (- 99999999) 0 of
             Inl err \<Rightarrow> Inl err
           | Inr (sumR, e) \<Rightarrow>
               if e + 1 = int (length input) then summed_span2 input b (int (length input))
               else summed_span2 input b (e + 1)))"

text \<open>
  The split \<^verbatim>\<open>size_t avg = (low + high) / 2;\<close> The sum is an addition of two \<^verbatim>\<open>int\<close>s, and the
  division is C++ integer division, which truncates towards zero (\<open>sdiv\<close>). The quotient
  lies between \<open>-2\<^sup>3\<^sup>0\<close> and \<open>2\<^sup>3\<^sup>0\<close>, so neither its passage through \<^verbatim>\<open>size_t\<close> back to an \<^verbatim>\<open>int\<close>
  parameter nor \<^verbatim>\<open>avg + 1\<close> changes the value.
\<close>

definition midpoint :: "int \<Rightarrow> int \<Rightarrow> int" where
  "midpoint low high = int32 (low + high) sdiv 2"

text \<open>
  \<^verbatim>\<open>maximum_subarray_recurse\<close>. Nothing in the C++ function bounds the recursion, so the
  model is a partial function: \<open>None\<close> stands for a call that does not return, \<open>Some (Inl err)\<close>
  for one that stops the program, \<open>Some (Inr s)\<close> for one that returns the span \<open>s\<close>. A call
  that stops the program stops it before the calls that follow.
\<close>

partial_function (option) maximum_subarray_recurse ::
  "int list \<Rightarrow> int \<Rightarrow> int \<Rightarrow> (error + summed_span) option" where
  "maximum_subarray_recurse input low high =
     (if low = high then Some (summed_span2 input low (low + 1))
      else
        (let avg = midpoint low high in
         Option.bind (maximum_subarray_recurse input low avg) (\<lambda>onLeft.
           case onLeft of
             Inl err \<Rightarrow> Some (Inl err)
           | Inr l \<Rightarrow>
               Option.bind (maximum_subarray_recurse input (avg + 1) high) (\<lambda>onRight.
                 case onRight of
                   Inl err \<Rightarrow> Some (Inl err)
                 | Inr r \<Rightarrow>
                     (case crossing_max_subarray input low avg high of
                        Inl err \<Rightarrow> Some (Inl err)
                      | Inr crossing \<Rightarrow>
                          if span_sum crossing > span_sum l \<and> span_sum crossing > span_sum r
                          then Some (Inr crossing)
                          else if span_sum l > span_sum r \<and> span_sum l > span_sum crossing
                          then Some (Inr l)
                          else Some (Inr r))))))"

definition max_subarray_dbh :: "int list \<Rightarrow> (error + summed_span) option" where
  "max_subarray_dbh input =
     (if input = [] then Some (Inl Assertion_Failed)
      else maximum_subarray_recurse input 0 (int (length input) - 1))"

section \<open>Exhaustive subset sum\<close>

text \<open>
  \<^verbatim>\<open>uint64_t largestInt = 1 << input.size();\<close> The literal \<^verbatim>\<open>1\<close> is an \<^verbatim>\<open>int\<close>, so the shift
  is computed in 32 bits and its result is converted to 64 bits afterwards, with sign
  extension. For a count below 32 the result is the bit pattern of 1 moved left
  (for 31 that is the most negative \<^verbatim>\<open>int\<close>). For a count of 32 or more C++ does not
  define the result; the model takes what such a shift yields as the parameter \<open>wide\<close>, and
  every statement below about \<^verbatim>\<open>subset_sum_exh\<close> holds for each choice of it.
\<close>

definition shl_int :: "(nat \<Rightarrow> 32 word) \<Rightarrow> nat \<Rightarrow> 32 word" where
  "shl_int wide n = (if n < 32 then push_bit n 1 else wide n)"

definition largestInt :: "(nat \<Rightarrow> 32 word) \<Rightarrow> nat \<Rightarrow> nat" where
  "largestInt wide n = nat (sint (shl_int wide n) mod 2 ^ 64)"

text \<open>
  The loop \<^verbatim>\<open>for (int j = 0; j < input.size(); j++)\<close> for the mask \<open>i\<close>. The test for the
  target sits inside this loop, after each position; the sum \<open>x\<close> of the candidate is
  accumulated in an \<^verbatim>\<open>int\<close>. The mask is a \<^verbatim>\<open>uint64_t\<close> below \<open>largestInt\<close>; it never wraps and
  is modelled as a natural number.
\<close>

function subset_inner :: "int list \<Rightarrow> int \<Rightarrow> nat \<Rightarrow> nat \<Rightarrow> int list \<Rightarrow> int list option" where
  "subset_inner input target i j candidate =
     (if j < length input then
        (let candidate' = (if drop_bit j i AND 1 = 1 then candidate @ [input ! j] else candidate);
             x = foldl (\<lambda>x v. int32 (x + v)) 0 candidate'
         in if length candidate' > 0 \<and> x = target then Some candidate'
            else subset_inner input target i (j + 1) candidate')
      else None)"
  by pat_completeness auto
termination
  by (relation "measure (\<lambda>(input, target, i, j, candidate). length input - j)") auto

declare subset_inner.simps [simp del]

text \<open>The loop \<^verbatim>\<open>for (uint64_t i = 0; i < largestInt; i++)\<close>.\<close>

function subset_outer :: "nat \<Rightarrow> int list \<Rightarrow> int \<Rightarrow> nat \<Rightarrow> int list option" where
  "subset_outer largest input target i =
     (if i < largest then
        (case subset_inner input target i 0 [] of
           Some candidate \<Rightarrow> Some candidate
         | None \<Rightarrow> subset_outer largest input target (i + 1))
      else None)"
  by pat_completeness auto
termination
  by (relation "measure (\<lambda>(largest, input, target, i). largest - i)") auto

declare subset_outer.simps [simp del]

definition subset_sum_exh ::
  "(nat \<Rightarrow> 32 word) \<Rightarrow> int list \<Rightarrow> int \<Rightarrow> error + int list option" where
  "subset_sum_exh wide input target =
     (if input = [] then Inl Assertion_Failed
      else if \<not> length input < 64 then Inl Assertion_Failed
      else Inr (subset_outer (largestInt wide (length input)) input target 0))"

text \<open>
  The selection that the specification assigns to the bitmask \<open>m\<close>: the elements whose
  position is a set bit of \<open>m\<close>, by ascending position.
\<close>

definition subset_of :: "int list \<Rightarrow> nat \<Rightarrow> int list" where
  "subset_of input m = map (\<lambda>j. input ! j) (filter (\<lambda>j. bit m j) [0..<length input])"

section \<open>Auxiliary notions: inputs whose sums stay in range\<close>

text \<open>
  The assumption of the specification that no sum overflows, for the maximum-subarray
  algorithms: the total of every non-empty contiguous range of the input, so also every
  element, lies in the range of an \<^verbatim>\<open>int\<close>.
\<close>

definition ranges_fit :: "int list \<Rightarrow> bool" where
  "ranges_fit input \<longleftrightarrow>
     (\<forall>i j. i < j \<and> j \<le> length input \<longrightarrow> int_range (range_total input i j))"

text \<open>
  The same assumption for the subset sum: the total of every selection of elements of the
  input, so also every element, lies in the range of an \<^verbatim>\<open>int\<close>.
\<close>

definition selections_fit :: "int list \<Rightarrow> bool" where
  "selections_fit input \<longleftrightarrow>
     (\<forall>m. m < 2 ^ length input \<longrightarrow> int_range (sum_list (subset_of input m)))"

section \<open>Auxiliary notions: the invariant of the exhaustive search\<close>

text \<open>
  The candidate ranges that the two nested loops have compared when the counters stand at
  \<open>i\<close> and \<open>j\<close>: the ranges from \<open>i'\<close> to \<open>j'\<close> that come before \<open>(i, j)\<close> in the order of the scan.
\<close>

definition seen :: "nat \<Rightarrow> nat \<Rightarrow> nat \<Rightarrow> nat \<Rightarrow> nat \<Rightarrow> bool" where
  "seen n i j i' j' \<longleftrightarrow> i' < j' \<and> j' \<le> n \<and> (i' < i \<or> (i' = i \<and> j' < j))"

text \<open>
  The invariant of the loops: the current best \<open>(b, e)\<close> is a range of the input that is not
  after \<open>(i, j)\<close> in the scan, no range compared so far has a greater total, and every
  range compared before \<open>(b, e)\<close> has a smaller one.
\<close>

definition exh_inv :: "int list \<Rightarrow> nat \<Rightarrow> nat \<Rightarrow> nat \<times> nat \<Rightarrow> bool" where
  "exh_inv input i j be \<longleftrightarrow>
     (case be of (b, e) \<Rightarrow>
        b < e \<and> e \<le> length input \<and> (b < i \<or> (b = i \<and> e \<le> j)) \<and>
        (\<forall>i' j'. seen (length input) i j i' j' \<longrightarrow>
           range_total input i' j' \<le> range_total input b e \<and>
           ((i' < b \<or> (i' = b \<and> j' < e)) \<longrightarrow> range_total input i' j' < range_total input b e)))"

section \<open>Auxiliary notions: the candidate of the subset-sum loop\<close>

text \<open>
  The candidate that the inner loop of \<^verbatim>\<open>subset_sum_exh\<close> has built for the mask \<open>m\<close> when
  its counter stands at \<open>j\<close>: the elements at the set bits of \<open>m\<close> below \<open>j\<close>.
\<close>

definition picked :: "int list \<Rightarrow> nat \<Rightarrow> nat \<Rightarrow> int list" where
  "picked input m j = map (\<lambda>k. input ! k) (filter (\<lambda>k. bit m k) [0..<j])"

section \<open>Equality of spans\<close>

text \<open>
  C9. Two spans are equal exactly when their begin positions and their end positions are
  equal; the stored sums are not compared, so two spans over the same positions are equal
  even when their stored sums differ.
\<close>

theorem span_eq_positions:
  "(span_eq s t \<longleftrightarrow> span_begin s = span_begin t \<and> span_end s = span_end t)
   \<and> span_eq \<lparr>span_begin = b, span_end = e, span_sum = x\<rparr>
              \<lparr>span_begin = b, span_end = e, span_sum = y\<rparr>"
  by (simp add: span_eq_def)

section \<open>The two maximum-subarray algorithms on concrete inputs\<close>

text \<open>
  C1. The exhaustive and the decrease-by-half algorithm are to return spans with the same
  sum on every non-empty input. On the input \<open>[5, 0]\<close> they do not: the exhaustive search
  returns the span of offsets 0 to 1 with sum 5, the decrease-by-half algorithm the span of
  offsets 1 to 2 with sum 0. The left result and the crossing result tie at 5, neither is
  strictly greater than the other, and the combine step falls through to the right result.
\<close>

theorem max_subarray_dbh_differs_on_tie:
  "max_subarray_exh [5, 0] = Inr \<lparr>span_begin = 0, span_end = 1, span_sum = 5\<rparr>
   \<and> max_subarray_dbh [5, 0] = Some (Inr \<lparr>span_begin = 1, span_end = 2, span_sum = 0\<rparr>)"
  by (simp add: max_subarray_exh_def max_subarray_dbh_def maximum_subarray_recurse.simps
      exh_outer.simps exh_inner.simps sum_loop.simps crossing_left.simps crossing_right.simps
      crossing_max_subarray_def summed_span2_def summed_span3_def accumulate_def
      midpoint_def int32_def signed_divide_int_def)

text \<open>
  C6. The span returned by \<^verbatim>\<open>crossing_max_subarray\<close> is to contain the positions \<open>mid\<close> and
  \<open>mid + 1\<close> and to carry the greatest sum of a range that straddles the split. On the input
  \<open>[5, -100000000]\<close> with \<open>low = mid = 0\<close> and \<open>high = 1\<close> the rightward running total never
  exceeds the initial value \<open>-99999999\<close>, \<open>e\<close> keeps its initial 0, and the span of offsets 0
  to 1 with sum 5 is returned: it does not contain position 1, and the only straddling
  range, the whole input, has the total \<open>-99999995\<close>.
\<close>

theorem crossing_max_subarray_below_sentinel:
  "crossing_max_subarray [5, - 100000000] 0 0 1
     = Inr \<lparr>span_begin = 0, span_end = 1, span_sum = 5\<rparr>
   \<and> range_total [5, - 100000000] 0 2 = - 99999995"
  by (simp add: crossing_max_subarray_def crossing_left.simps crossing_right.simps
      summed_span2_def summed_span3_def accumulate_def range_total_def int32_def)

text \<open>
  C8. Every span constructed by the two algorithms is to satisfy \<open>begin < end\<close>. On the input
  \<open>[0, 5, -100000000]\<close> the decrease-by-half algorithm constructs, in the crossing step of
  the top-level call, a span from offset 1 to offset 1: the assertion of the constructor
  fails.
\<close>

theorem max_subarray_dbh_assertion_fails:
  "max_subarray_dbh [0, 5, - 100000000] = Some (Inl Assertion_Failed)"
  by (simp add: max_subarray_dbh_def maximum_subarray_recurse.simps
      crossing_left.simps crossing_right.simps
      crossing_max_subarray_def summed_span2_def summed_span3_def accumulate_def
      midpoint_def int32_def signed_divide_int_def)

section \<open>Totals of ranges\<close>

lemma int32_id: "int_range x \<Longrightarrow> int32 x = x"
  by (simp add: int_range_def int32_def)

lemma ranges_fitD: "ranges_fit input \<Longrightarrow> i < j \<Longrightarrow> j \<le> length input \<Longrightarrow>
    int_range (range_total input i j)"
  by (simp add: ranges_fit_def)

lemma range_total_empty [simp]: "e \<le> b \<Longrightarrow> range_total input b e = 0"
  by (simp add: range_total_def)

lemma range_total_Suc:
  "b \<le> e \<Longrightarrow> e < length input \<Longrightarrow> range_total input b (Suc e) = range_total input b e + input ! e"
  by (simp add: range_total_def Suc_diff_le take_Suc_conv_app_nth)

lemma range_total_first:
  "b < e \<Longrightarrow> e \<le> length input \<Longrightarrow> range_total input b e = input ! b + range_total input (Suc b) e"
proof -
  assume a: "b < e" "e \<le> length input"
  then have "drop b input = input ! b # drop (Suc b) input"
    by (simp add: Cons_nth_drop_Suc)
  moreover from a have "e - b = Suc (e - Suc b)" by simp
  ultimately show ?thesis by (simp add: range_total_def)
qed

lemma sum_loop_from:
  assumes fit: "ranges_fit input" and j: "j \<le> length input"
  shows "i \<le> k \<Longrightarrow> k \<le> j \<Longrightarrow>
         sum_loop input k j (range_total input i k) = range_total input i j"
proof (induction "j - k" arbitrary: k)
  case 0
  then show ?case by (subst sum_loop.simps) simp
next
  case (Suc d)
  then have lt: "k < j" by simp
  with j have kn: "k < length input" by simp
  have "int_range (range_total input i (Suc k))"
    using fit Suc.prems(1) lt j by (intro ranges_fitD) simp_all
  then have step: "int32 (range_total input i k + input ! k) = range_total input i (Suc k)"
    using Suc.prems(1) kn by (simp add: range_total_Suc int32_id)
  from Suc(2) have "d = j - Suc k" by simp
  from Suc(1) [OF this] Suc.prems(1) lt
  have "sum_loop input (Suc k) j (range_total input i (Suc k)) = range_total input i j"
    by simp
  with lt step show ?case by (subst sum_loop.simps) simp
qed

lemma sum_loop_total:
  "ranges_fit input \<Longrightarrow> i \<le> j \<Longrightarrow> j \<le> length input \<Longrightarrow>
   sum_loop input i j 0 = range_total input i j"
  using sum_loop_from [of input j i i] by simp

lemma accumulate_fold:
  assumes fit: "ranges_fit input"
  shows "b \<le> e \<Longrightarrow> e \<le> length input \<Longrightarrow>
         foldl (\<lambda>acc v. int32 (acc + v)) 0 (take (e - b) (drop b input)) = range_total input b e"
proof (induction e)
  case 0
  then show ?case by simp
next
  case (Suc e)
  show ?case
  proof (cases "b \<le> e")
    case True
    with Suc have ih: "foldl (\<lambda>acc v. int32 (acc + v)) 0 (take (e - b) (drop b input))
        = range_total input b e"
      by simp
    from True Suc.prems have "take (Suc e - b) (drop b input)
        = take (e - b) (drop b input) @ [input ! e]"
      by (simp add: Suc_diff_le take_Suc_conv_app_nth)
    moreover have "int_range (range_total input b (Suc e))"
      using fit True Suc.prems by (intro ranges_fitD) simp_all
    then have "int32 (range_total input b e + input ! e) = range_total input b (Suc e)"
      using True Suc.prems by (simp add: range_total_Suc int32_id)
    ultimately show ?thesis using ih by simp
  next
    case False
    with Suc.prems have "b = Suc e" by simp
    then show ?thesis by simp
  qed
qed

section \<open>Correctness of the exhaustive search\<close>

lemma exh_invI:
  assumes "b < e" "e \<le> length input" "b < i \<or> (b = i \<and> e \<le> j)"
    and "\<And>i' j'. seen (length input) i j i' j' \<Longrightarrow>
           range_total input i' j' \<le> range_total input b e"
    and "\<And>i' j'. seen (length input) i j i' j' \<Longrightarrow> i' < b \<or> (i' = b \<and> j' < e) \<Longrightarrow>
           range_total input i' j' < range_total input b e"
  shows "exh_inv input i j (b, e)"
  unfolding exh_inv_def prod.case using assms by blast

lemma exh_inv_bounds:
  "exh_inv input i j (b, e) \<Longrightarrow> b < e \<and> e \<le> length input \<and> (b < i \<or> (b = i \<and> e \<le> j))"
  unfolding exh_inv_def prod.case by blast

lemma exh_inv_le:
  "exh_inv input i j (b, e) \<Longrightarrow> seen (length input) i j i' j' \<Longrightarrow>
   range_total input i' j' \<le> range_total input b e"
  unfolding exh_inv_def prod.case by blast

lemma exh_inv_less:
  "exh_inv input i j (b, e) \<Longrightarrow> seen (length input) i j i' j' \<Longrightarrow>
   i' < b \<or> (i' = b \<and> j' < e) \<Longrightarrow> range_total input i' j' < range_total input b e"
  unfolding exh_inv_def prod.case by blast

lemma seen_step:
  "seen n i (j + 1) i' j' \<Longrightarrow> seen n i j i' j' \<or> (i' = i \<and> j' = j)"
  by (auto simp: seen_def)

lemma seen_next_row:
  "seen n (i + 1) (i + 2) i' j' \<Longrightarrow> seen n i (n + 1) i' j'"
  by (auto simp: seen_def)

lemma seen_past_end:
  "\<not> j \<le> n \<Longrightarrow> seen n i (n + 1) i' j' \<Longrightarrow> seen n i j i' j'"
  by (auto simp: seen_def)

lemma seen_all: "i < j \<Longrightarrow> j \<le> n \<Longrightarrow> seen n n (n + 1) i j"
  by (auto simp: seen_def)

lemma exh_inv_step:
  assumes inv: "exh_inv input i j (b, e)" and ij: "i < j" and jn: "j \<le> length input"
  shows "exh_inv input i (j + 1)
           (if range_total input i j > range_total input b e then (i, j) else (b, e))"
proof (cases "range_total input i j > range_total input b e")
  case True
  have "exh_inv input i (j + 1) (i, j)"
  proof (rule exh_invI)
    show "i < j" "j \<le> length input" "i < i \<or> (i = i \<and> j \<le> j + 1)"
      using ij jn by simp_all
  next
    fix i' j' assume s: "seen (length input) i (j + 1) i' j'"
    from seen_step [OF s] exh_inv_le [OF inv] True
    show "range_total input i' j' \<le> range_total input i j" by fastforce
    assume "i' < i \<or> (i' = i \<and> j' < j)"
    with seen_step [OF s] have "seen (length input) i j i' j'" by auto
    from exh_inv_le [OF inv this] True
    show "range_total input i' j' < range_total input i j" by simp
  qed
  with True show ?thesis by simp
next
  case False
  note pos = exh_inv_bounds [OF inv]
  have "exh_inv input i (j + 1) (b, e)"
  proof (rule exh_invI)
    show "b < e" "e \<le> length input" "b < i \<or> (b = i \<and> e \<le> j + 1)"
      using pos by auto
  next
    fix i' j' assume s: "seen (length input) i (j + 1) i' j'"
    from seen_step [OF s] exh_inv_le [OF inv] False
    show "range_total input i' j' \<le> range_total input b e" by fastforce
    assume before: "i' < b \<or> (i' = b \<and> j' < e)"
    with pos seen_step [OF s] have "seen (length input) i j i' j'" by auto
    from exh_inv_less [OF inv this before]
    show "range_total input i' j' < range_total input b e" .
  qed
  with False show ?thesis by simp
qed

lemma exh_inner_unfold:
  "ranges_fit input \<Longrightarrow> i < j \<Longrightarrow> j \<le> length input \<Longrightarrow> b < e \<Longrightarrow> e \<le> length input \<Longrightarrow>
   exh_inner input i j (b, e) =
   exh_inner input i (j + 1)
     (if range_total input i j > range_total input b e then (i, j) else (b, e))"
  by (subst exh_inner.simps) (simp add: sum_loop_total del: exh_inner.simps)

lemma exh_inner_inv:
  "ranges_fit input \<Longrightarrow> exh_inv input i j be \<Longrightarrow> i < j \<Longrightarrow>
   exh_inv input i (length input + 1) (exh_inner input i j be)"
proof (induction input i j be rule: exh_inner.induct)
  case (1 input i j b e)
  note fit = 1(2) and inv = 1(3) and ij = 1(4)
  note pos = exh_inv_bounds [OF inv]
  show ?case
  proof (cases "j \<le> length input")
    case True
    let ?be' = "if range_total input i j > range_total input b e then (i, j) else (b, e)"
    have sums: "sum_loop input i j 0 = range_total input i j"
      "sum_loop input b e 0 = range_total input b e"
      using True pos ij fit by (simp_all add: sum_loop_total)
    have "exh_inv input i (j + 1) ?be'"
      using exh_inv_step [OF inv ij True] .
    then have "exh_inv input i (length input + 1) (exh_inner input i (j + 1) ?be')"
      using 1(1) [OF True refl refl fit] ij sums by simp
    then show ?thesis
      using exh_inner_unfold [OF fit ij True, of b e] pos by simp
  next
    case False
    have "exh_inv input i (length input + 1) (b, e)"
    proof (rule exh_invI)
      show "b < e" "e \<le> length input" "b < i \<or> (b = i \<and> e \<le> length input + 1)"
        using pos by auto
    next
      fix i' j' assume s: "seen (length input) i (length input + 1) i' j'"
      note s' = seen_past_end [OF False s]
      show "range_total input i' j' \<le> range_total input b e"
        using exh_inv_le [OF inv s'] .
      show "range_total input i' j' < range_total input b e" if "i' < b \<or> (i' = b \<and> j' < e)"
        using exh_inv_less [OF inv s' that] .
    qed
    with False show ?thesis by (subst exh_inner.simps) simp
  qed
qed

lemma exh_inv_next_row:
  assumes inv: "exh_inv input i (length input + 1) (b, e)"
  shows "exh_inv input (i + 1) (i + 2) (b, e)"
proof (rule exh_invI)
  show "b < e" "e \<le> length input" "b < i + 1 \<or> (b = i + 1 \<and> e \<le> i + 2)"
    using exh_inv_bounds [OF inv] by auto
next
  fix i' j' assume s: "seen (length input) (i + 1) (i + 2) i' j'"
  note s' = seen_next_row [OF s]
  show "range_total input i' j' \<le> range_total input b e"
    using exh_inv_le [OF inv s'] .
  show "range_total input i' j' < range_total input b e" if "i' < b \<or> (i' = b \<and> j' < e)"
    using exh_inv_less [OF inv s' that] .
qed

lemma exh_outer_inv:
  "ranges_fit input \<Longrightarrow> exh_inv input i (i + 1) be \<Longrightarrow> i \<le> length input \<Longrightarrow>
   exh_inv input (length input) (length input + 1) (exh_outer input i be)"
proof (induction input i be rule: exh_outer.induct)
  case (1 input i be)
  note fit = 1(2) and inv = 1(3)
  show ?case
  proof (cases "int i \<le> int (length input) - 1")
    case True
    obtain b e where be: "exh_inner input i (i + 1) be = (b, e)"
      by (cases "exh_inner input i (i + 1) be")
    have "exh_inv input i (length input + 1) (b, e)"
      using exh_inner_inv [OF fit inv] be by simp
    then have "exh_inv input (i + 1) (i + 1 + 1) (exh_inner input i (i + 1) be)"
      using exh_inv_next_row be by simp
    moreover from True have "i + 1 \<le> length input" by simp
    ultimately have "exh_inv input (length input) (length input + 1)
        (exh_outer input (i + 1) (exh_inner input i (i + 1) be))"
      using 1(1) [OF True fit] by blast
    with True show ?thesis by (subst exh_outer.simps) simp
  next
    case False
    with 1(4) have "i = length input" by simp
    with inv False show ?thesis by (subst exh_outer.simps) simp
  qed
qed

lemma exh_inv_initial: "input \<noteq> [] \<Longrightarrow> exh_inv input 0 (0 + 1) (0, 1)"
  by (rule exh_invI) (auto simp: seen_def Suc_le_eq)

lemma exh_outer_best:
  assumes "ranges_fit input" and "input \<noteq> []" and "exh_outer input 0 (0, 1) = (b, e)"
  shows "b < e" and "e \<le> length input"
    and "i < j \<Longrightarrow> j \<le> length input \<Longrightarrow> range_total input i j \<le> range_total input b e"
    and "i < j \<Longrightarrow> j \<le> length input \<Longrightarrow> i < b \<or> (i = b \<and> j < e) \<Longrightarrow>
         range_total input i j < range_total input b e"
proof -
  have inv: "exh_inv input (length input) (length input + 1) (b, e)"
    using exh_outer_inv [OF assms(1) exh_inv_initial [OF assms(2)]] assms(3) by simp
  from exh_inv_bounds [OF inv] show "b < e" "e \<le> length input" by simp_all
  show "range_total input i j \<le> range_total input b e" if "i < j" "j \<le> length input"
    using exh_inv_le [OF inv seen_all [OF that]] .
  show "range_total input i j < range_total input b e"
    if "i < j" "j \<le> length input" "i < b \<or> (i = b \<and> j < e)"
    using exh_inv_less [OF inv seen_all [OF that(1,2)] that(3)] .
qed

lemma accumulate_total:
  "ranges_fit input \<Longrightarrow> b \<le> e \<Longrightarrow> e \<le> length input \<Longrightarrow>
   accumulate input (int b) (int e) = Inr (range_total input b e)"
  by (simp add: accumulate_def accumulate_fold flip: of_nat_diff)

lemma summed_span2_total:
  "ranges_fit input \<Longrightarrow> b < e \<Longrightarrow> e \<le> length input \<Longrightarrow>
   summed_span2 input (int b) (int e) =
     Inr \<lparr>span_begin = int b, span_end = int e, span_sum = range_total input b e\<rparr>"
  by (simp add: summed_span2_def summed_span3_def accumulate_total)

lemma range_total_negative:
  "\<forall>x\<in>set input. x < 0 \<Longrightarrow> b < e \<Longrightarrow> e \<le> length input \<Longrightarrow> range_total input b e < 0"
proof (induction e)
  case 0
  then show ?case by simp
next
  case (Suc e)
  from Suc.prems have neg: "input ! e < 0" by simp
  show ?case
  proof (cases "b < e")
    case True
    with Suc have "range_total input b e < 0" by simp
    moreover have "range_total input b (Suc e) = range_total input b e + input ! e"
      using Suc.prems True by (simp add: range_total_Suc)
    ultimately show ?thesis using neg by linarith
  next
    case False
    with Suc.prems have "b = e" by simp
    then have "range_total input b (Suc e) = input ! e"
      using Suc.prems by (simp add: range_total_Suc)
    with neg show ?thesis by linarith
  qed
qed

lemma max_subarray_exh_span:
  assumes "ranges_fit input" and "input \<noteq> []" and "exh_outer input 0 (0, 1) = (b, e)"
  shows "max_subarray_exh input =
     Inr \<lparr>span_begin = int b, span_end = int e, span_sum = range_total input b e\<rparr>"
  using assms exh_outer_best(1,2) [OF assms]
  by (simp add: max_subarray_exh_def summed_span2_total)

text \<open>
  An input fits when the absolute values of its elements add up to an \<^verbatim>\<open>int\<close>.
\<close>

lemma abs_sum_list_le: "\<bar>sum_list xs\<bar> \<le> sum_list (map abs xs)" for xs :: "int list"
  by (induction xs) auto

lemma sum_abs_take_drop:
  "sum_list (map abs (take a (drop b xs))) \<le> sum_list (map abs xs)" for xs :: "int list"
proof -
  have "sum_list (map abs xs)
      = sum_list (map abs (take b xs)) + sum_list (map abs (drop b xs))"
    by (metis append_take_drop_id map_append sum_list_append)
  also have "sum_list (map abs (drop b xs))
      = sum_list (map abs (take a (drop b xs))) + sum_list (map abs (drop a (drop b xs)))"
    by (metis append_take_drop_id map_append sum_list_append)
  finally show ?thesis
    using sum_list_abs [of "take b xs"] sum_list_abs [of "drop a (drop b xs)"]
    by (smt (verit) abs_ge_zero)
qed

lemma ranges_fit_abs:
  assumes "sum_list (map abs input) \<le> 2147483647"
  shows "ranges_fit input"
  unfolding ranges_fit_def int_range_def range_total_def
proof (intro allI impI)
  fix i j
  have "\<bar>sum_list (take (j - i) (drop i input))\<bar> \<le> sum_list (map abs input)"
    using abs_sum_list_le [of "take (j - i) (drop i input)"]
      sum_abs_take_drop [of "j - i" i input] by linarith
  with assms show "- 2147483648 \<le> sum_list (take (j - i) (drop i input))
      \<and> sum_list (take (j - i) (drop i input)) \<le> 2147483647"
    by linarith
qed

text \<open>
  Without the assumption the accumulators wrap: on \<open>[2147483647, 1]\<close> the total of the whole
  input is \<open>2\<^sup>3\<^sup>1\<close>, the \<^verbatim>\<open>int\<close> sum is negative, and the first element alone is returned.
\<close>

lemma max_subarray_exh_wraps:
  "max_subarray_exh [2147483647, 1]
     = Inr \<lparr>span_begin = 0, span_end = 1, span_sum = 2147483647\<rparr>
   \<and> range_total [2147483647, 1] 0 2 = 2147483648"
  by (simp add: max_subarray_exh_def exh_outer.simps exh_inner.simps sum_loop.simps
      summed_span2_def summed_span3_def accumulate_def int32_def range_total_def)

text \<open>
  C2. For a non-empty input whose range totals all lie in the range of an \<^verbatim>\<open>int\<close> (and whose
  size the \<^verbatim>\<open>int\<close> counters can hold) \<^verbatim>\<open>max_subarray_exh\<close> returns a span over a non-empty
  range of the input whose stored sum is the total of that range, no non-empty contiguous
  range has a greater total, and every range that the scan (ascending \<open>i\<close>, then ascending
  \<open>j\<close>, starting at the default best from 0 to 1) reaches earlier has a strictly smaller
  total: of the ranges with the greatest total the first one found is kept. When all
  elements are negative the range has one element.
\<close>

theorem max_subarray_exh_correct:
  assumes "input \<noteq> []" and "length input < 2147483647" and "ranges_fit input"
  shows "\<exists>b e. max_subarray_exh input =
            Inr \<lparr>span_begin = int b, span_end = int e, span_sum = range_total input b e\<rparr>
          \<and> b < e \<and> e \<le> length input
          \<and> (\<forall>i j. i < j \<and> j \<le> length input \<longrightarrow>
                range_total input i j \<le> range_total input b e)
          \<and> (\<forall>i j. i < j \<and> j \<le> length input \<and> (i < b \<or> (i = b \<and> j < e)) \<longrightarrow>
                range_total input i j < range_total input b e)
          \<and> ((\<forall>x\<in>set input. x < 0) \<longrightarrow> e = b + 1)"
proof -
  obtain b e where be: "exh_outer input 0 (0, 1) = (b, e)"
    by (cases "exh_outer input 0 (0, 1)")
  note best = exh_outer_best [OF assms(3) assms(1) be]
  have single: "e = b + 1" if neg: "\<forall>x\<in>set input. x < 0"
  proof (rule ccontr)
    assume "e \<noteq> b + 1"
    with best(1) have "Suc b < e" by simp
    with best(2) neg have "range_total input (Suc b) e < 0"
      by (simp add: range_total_negative)
    moreover have "range_total input b e = input ! b + range_total input (Suc b) e"
      using best(1,2) by (rule range_total_first)
    moreover have "range_total input b (Suc b) = input ! b"
      using best(1,2) by (simp add: range_total_Suc)
    moreover have "range_total input b (Suc b) \<le> range_total input b e"
      using best(1,2) by (intro best(3)) simp_all
    ultimately show False by simp
  qed
  show ?thesis
  proof (intro exI conjI allI impI)
    show "max_subarray_exh input =
      Inr \<lparr>span_begin = int b, span_end = int e, span_sum = range_total input b e\<rparr>"
      by (rule max_subarray_exh_span [OF assms(3) assms(1) be])
    show "b < e" "e \<le> length input" by (rule best)+
    show "range_total input i j \<le> range_total input b e" if "i < j \<and> j \<le> length input" for i j
      using that best(3) by blast
    show "range_total input i j < range_total input b e"
      if "i < j \<and> j \<le> length input \<and> (i < b \<or> (i = b \<and> j < e))" for i j
      using that best(4) by blast
    show "e = b + 1" if "\<forall>x\<in>set input. x < 0"
      using that by (rule single)
  qed
qed

theorem max_subarray_exh_correct_witness:
  "[- 3, - 1, - 2] \<noteq> ([] :: int list)
   \<and> length [- 3, - 1, - 2 :: int] < 2147483647
   \<and> ranges_fit [- 3, - 1, - 2]
   \<and> max_subarray_exh [- 3, - 1, - 2] = Inr \<lparr>span_begin = 1, span_end = 2, span_sum = - 1\<rparr>
   \<and> (\<exists>b e. max_subarray_exh [- 3, - 1, - 2] =
            Inr \<lparr>span_begin = int b, span_end = int e,
                 span_sum = range_total [- 3, - 1, - 2] b e\<rparr>
          \<and> b < e \<and> e \<le> length [- 3, - 1, - 2 :: int]
          \<and> (\<forall>i j. i < j \<and> j \<le> length [- 3, - 1, - 2 :: int] \<longrightarrow>
                range_total [- 3, - 1, - 2] i j \<le> range_total [- 3, - 1, - 2] b e)
          \<and> (\<forall>i j. i < j \<and> j \<le> length [- 3, - 1, - 2 :: int] \<and> (i < b \<or> (i = b \<and> j < e)) \<longrightarrow>
                range_total [- 3, - 1, - 2] i j < range_total [- 3, - 1, - 2] b e)
          \<and> ((\<forall>x\<in>set [- 3, - 1, - 2 :: int]. x < 0) \<longrightarrow> e = b + 1))"
proof -
  have ne: "[- 3, - 1, - 2] \<noteq> ([] :: int list)"
    and len: "length [- 3, - 1, - 2 :: int] < 2147483647"
    by simp_all
  have fit: "ranges_fit [- 3, - 1, - 2]"
    by (rule ranges_fit_abs) simp
  have "max_subarray_exh [- 3, - 1, - 2] = Inr \<lparr>span_begin = 1, span_end = 2, span_sum = - 1\<rparr>"
    by (simp add: max_subarray_exh_def exh_outer.simps exh_inner.simps sum_loop.simps
        summed_span2_def summed_span3_def accumulate_def int32_def)
  moreover note max_subarray_exh_correct [OF ne len fit]
  ultimately show ?thesis using ne len fit by (intro conjI)
qed

section \<open>The recursion of the decrease-by-half algorithm\<close>



text \<open>
  Beyond \<open>2\<^sup>3\<^sup>0\<close> the sum \<open>low + high\<close> leaves the range of an \<^verbatim>\<open>int\<close> and the split leaves the
  range \<open>[low, high]\<close>; a call whose own sum still fits can make a right-hand call whose sum
  does not.
\<close>

lemma midpoint_overflow: "midpoint 1073741824 1073741825 = - 1073741823"
  by (simp add: midpoint_def int32_def signed_divide_int_def)

lemma midpoint_overflow_in_subcall:
  "midpoint 0 2147483646 = 1073741823 \<and> midpoint (1073741823 + 1) 2147483646 = - 536870913"
  by (simp add: midpoint_def int32_def signed_divide_int_def)



lemma maximum_subarray_recurse_combine_eq:
  assumes "low \<noteq> high"
    and "maximum_subarray_recurse input low (midpoint low high) = Some (Inr l)"
    and "maximum_subarray_recurse input (midpoint low high + 1) high = Some (Inr r)"
    and "crossing_max_subarray input low (midpoint low high) high = Inr c"
  shows "maximum_subarray_recurse input low high =
     Some (Inr (if span_sum c > span_sum l \<and> span_sum c > span_sum r then c
                else if span_sum l > span_sum r \<and> span_sum l > span_sum c then l
                else r))"
  using assms by (subst maximum_subarray_recurse.simps) (simp add: Let_def)



text \<open>
  C3. The combine step for a range with \<open>low < high\<close>, given the left result \<open>l\<close>, the right
  result \<open>r\<close> and the crossing result \<open>c\<close>: the crossing result is returned when its sum is
  strictly greater than both other sums; failing that, the left result is returned when
  its sum is strictly greater than both the right and the crossing sum; in every other
  case, so in every tie that leaves neither of them strictly greatest, the right result is
  returned.
\<close>

theorem maximum_subarray_recurse_combine:
  assumes "low < high"
    and "maximum_subarray_recurse input low (midpoint low high) = Some (Inr l)"
    and "maximum_subarray_recurse input (midpoint low high + 1) high = Some (Inr r)"
    and "crossing_max_subarray input low (midpoint low high) high = Inr c"
  shows "\<exists>x. maximum_subarray_recurse input low high = Some (Inr x)
     \<and> (span_sum c > span_sum l \<and> span_sum c > span_sum r \<longrightarrow> x = c)
     \<and> (\<not> (span_sum c > span_sum l \<and> span_sum c > span_sum r)
          \<and> span_sum l > span_sum r \<and> span_sum l > span_sum c \<longrightarrow> x = l)
     \<and> (\<not> (span_sum c > span_sum l \<and> span_sum c > span_sum r)
          \<and> \<not> (span_sum l > span_sum r \<and> span_sum l > span_sum c) \<longrightarrow> x = r)"
proof -
  from assms(1) have "low \<noteq> high" by simp
  from maximum_subarray_recurse_combine_eq [OF this assms(2-4)]
  show ?thesis by simp
qed

theorem maximum_subarray_recurse_combine_witness:
  "(0 :: int) < 1
   \<and> maximum_subarray_recurse [5, 0] 0 (midpoint 0 1)
       = Some (Inr \<lparr>span_begin = 0, span_end = 1, span_sum = 5\<rparr>)
   \<and> maximum_subarray_recurse [5, 0] (midpoint 0 1 + 1) 1
       = Some (Inr \<lparr>span_begin = 1, span_end = 2, span_sum = 0\<rparr>)
   \<and> crossing_max_subarray [5, 0] 0 (midpoint 0 1) 1
       = Inr \<lparr>span_begin = 0, span_end = 2, span_sum = 5\<rparr>
   \<and> maximum_subarray_recurse [5, 0] 0 1
       = Some (Inr \<lparr>span_begin = 1, span_end = 2, span_sum = 0\<rparr>)"
proof -
  have lt: "(0 :: int) < 1" by simp
  have l: "maximum_subarray_recurse [5, 0] 0 (midpoint 0 1)
       = Some (Inr \<lparr>span_begin = 0, span_end = 1, span_sum = 5\<rparr>)"
    by (simp add: maximum_subarray_recurse.simps summed_span2_def summed_span3_def
        accumulate_def midpoint_def int32_def signed_divide_int_def)
  have r: "maximum_subarray_recurse [5, 0] (midpoint 0 1 + 1) 1
       = Some (Inr \<lparr>span_begin = 1, span_end = 2, span_sum = 0\<rparr>)"
    by (simp add: maximum_subarray_recurse.simps summed_span2_def summed_span3_def
        accumulate_def midpoint_def int32_def signed_divide_int_def)
  have c: "crossing_max_subarray [5, 0] 0 (midpoint 0 1) 1
       = Inr \<lparr>span_begin = 0, span_end = 2, span_sum = 5\<rparr>"
    by (simp add: crossing_max_subarray_def crossing_left.simps crossing_right.simps
        summed_span2_def summed_span3_def accumulate_def midpoint_def int32_def
        signed_divide_int_def)
  from maximum_subarray_recurse_combine [OF lt l r c]
  have "maximum_subarray_recurse [5, 0] 0 1
       = Some (Inr \<lparr>span_begin = 1, span_end = 2, span_sum = 0\<rparr>)"
    by auto
  with lt l r c show ?thesis by (intro conjI)
qed

section \<open>The masks of the exhaustive subset sum\<close>

lemma mask_test_bit: "drop_bit j i AND 1 = 1 \<longleftrightarrow> bit i j" for i :: nat
  by (simp add: and_one_eq bit_iff_odd_drop_bit odd_iff_mod_2_eq_one)

lemma picked_0 [simp]: "picked input m 0 = []"
  by (simp add: picked_def)

lemma picked_Suc:
  "picked input m (Suc j) = (if bit m j then picked input m j @ [input ! j] else picked input m j)"
  by (simp add: picked_def)

lemma picked_all: "picked input m (length input) = subset_of input m"
  by (simp add: picked_def subset_of_def)

lemma picked_take_bit:
  assumes "j \<le> length input"
  shows "picked input m j = subset_of input (take_bit j m)"
proof -
  have split: "[0..<length input] = [0..<j] @ [j..<length input]"
    using assms by (metis le_add_diff_inverse upt_add_eq_append zero_le)
  have "filter (\<lambda>k. bit (take_bit j m) k) [0..<j] = filter (\<lambda>k. bit m k) [0..<j]"
    by (rule filter_cong) (simp_all add: bit_take_bit_iff)
  moreover have "filter (\<lambda>k. bit (take_bit j m) k) [j..<length input] = []"
    by (simp add: bit_take_bit_iff filter_empty_conv)
  ultimately show ?thesis
    by (simp add: picked_def subset_of_def split)
qed

lemma subset_of_zero [simp]: "subset_of input 0 = []"
  by (simp add: subset_of_def)

lemma subset_of_nonempty:
  assumes "0 < m" and "m < 2 ^ length input"
  shows "subset_of input m \<noteq> []"
proof -
  from assms(1) obtain k where k: "bit m k"
    by (metis bit_eq_iff bit_0_eq less_numeral_extra(3) bot_apply bot_bool_def)
  have "k < length input"
  proof (rule ccontr)
    assume "\<not> k < length input"
    then have "(2 :: nat) ^ length input \<le> 2 ^ k" by simp
    with assms(2) have "m < 2 ^ k" by (rule less_le_trans)
    with k show False by (simp add: bit_iff_odd)
  qed
  with k have "k \<in> set (filter (\<lambda>k. bit m k) [0..<length input])" by simp
  then show ?thesis
    unfolding subset_of_def by (metis empty_iff list.set(1) map_is_Nil_conv)
qed

lemma selections_fitD:
  "selections_fit input \<Longrightarrow> m < 2 ^ length input \<Longrightarrow> int_range (sum_list (subset_of input m))"
  by (simp add: selections_fit_def)

lemma picked_fit:
  assumes "selections_fit input" and "j \<le> length input"
  shows "int_range (sum_list (picked input i j))"
proof -
  have "take_bit j i < (2 :: nat) ^ j" by simp
  also have "\<dots> \<le> 2 ^ length input" using assms(2) by simp
  finally have "int_range (sum_list (subset_of input (take_bit j i)))"
    using assms(1) by (intro selections_fitD)
  with assms(2) show ?thesis by (simp add: picked_take_bit)
qed

lemma wrapped_sum_picked:
  assumes fit: "selections_fit input"
  shows "j \<le> length input \<Longrightarrow>
         foldl (\<lambda>x v. int32 (x + v)) 0 (picked input i j) = sum_list (picked input i j)"
proof (induction j)
  case 0
  then show ?case by simp
next
  case (Suc j)
  then have ih: "foldl (\<lambda>x v. int32 (x + v)) 0 (picked input i j) = sum_list (picked input i j)"
    by simp
  show ?case
  proof (cases "bit i j")
    case True
    from picked_fit [OF fit Suc.prems, of i] True
    have "int32 (sum_list (picked input i j) + input ! j) = sum_list (picked input i j) + input ! j"
      by (simp add: picked_Suc int32_id)
    with True ih show ?thesis by (simp add: picked_Suc)
  next
    case False
    with ih show ?thesis by (simp add: picked_Suc)
  qed
qed

lemma subset_inner_step:
  assumes "selections_fit input" and "j < length input"
  shows "subset_inner input target i j (picked input i j) =
     (if picked input i (Suc j) \<noteq> [] \<and> sum_list (picked input i (Suc j)) = target
      then Some (picked input i (Suc j))
      else subset_inner input target i (Suc j) (picked input i (Suc j)))"
proof -
  have w: "foldl (\<lambda>x v. int32 (x + v)) 0 (picked input i (Suc j))
      = sum_list (picked input i (Suc j))"
    using assms by (intro wrapped_sum_picked) simp_all
  have c: "(if drop_bit j i AND 1 = 1 then picked input i j @ [input ! j] else picked input i j)
      = picked input i (Suc j)"
    by (simp only: mask_test_bit picked_Suc)
  show ?thesis
    using assms(2) by (subst subset_inner.simps) (simp only: c w Let_def, simp)
qed

lemma subset_inner_nonempty:
  "subset_inner input target i j candidate = Some c \<Longrightarrow> c \<noteq> []"
proof (induction input target i j candidate rule: subset_inner.induct)
  case (1 input target i j candidate)
  from 1(2) have lt: "j < length input"
    by (subst (asm) subset_inner.simps) (simp split: if_splits)
  define candidate' where
    "candidate' = (if drop_bit j i AND 1 = 1 then candidate @ [input ! j] else candidate)"
  define x where "x = foldl (\<lambda>x v. int32 (x + v)) 0 candidate'"
  have step: "subset_inner input target i j candidate =
      (if length candidate' > 0 \<and> x = target then Some candidate'
       else subset_inner input target i (j + 1) candidate')"
    by (subst subset_inner.simps) (simp only: lt if_True Let_def candidate'_def x_def)
  show ?case
  proof (cases "length candidate' > 0 \<and> x = target")
    case True
    with 1(2) step have "c = candidate'" by simp
    with True show ?thesis by auto
  next
    case False
    with 1(2) step have "subset_inner input target i (j + 1) candidate' = Some c" by auto
    with 1(1) [OF lt candidate'_def x_def False] show ?thesis by simp
  qed
qed

lemma subset_inner_Some:
  assumes fit: "selections_fit input"
  shows "subset_inner input target i j (picked input i j) = Some c \<Longrightarrow>
   \<exists>j'. j < j' \<and> j' \<le> length input \<and> c = picked input i j' \<and> c \<noteq> [] \<and> sum_list c = target"
proof (induction "length input - j" arbitrary: j)
  case 0
  then have "\<not> j < length input" by simp
  with 0(2) show ?case by (subst (asm) subset_inner.simps) simp
next
  case (Suc d)
  then have lt: "j < length input" by simp
  show ?case
  proof (cases "picked input i (Suc j) \<noteq> [] \<and> sum_list (picked input i (Suc j)) = target")
    case True
    with Suc.prems lt have "c = picked input i (Suc j)"
      by (simp add: subset_inner_step [OF fit])
    with True lt show ?thesis by (intro exI [of _ "Suc j"]) simp
  next
    case False
    with Suc.prems lt have "subset_inner input target i (Suc j) (picked input i (Suc j)) = Some c"
      by (simp add: subset_inner_step [OF fit])
    moreover from Suc(2) have "d = length input - Suc j" by simp
    ultimately obtain j' where "Suc j < j'" "j' \<le> length input" "c = picked input i j'"
      "c \<noteq> []" "sum_list c = target"
      using Suc(1) by blast
    then show ?thesis by (intro exI [of _ j']) simp
  qed
qed

lemma subset_inner_None:
  assumes fit: "selections_fit input"
  shows "subset_inner input target i j (picked input i j) = None \<Longrightarrow> j < j' \<Longrightarrow>
   j' \<le> length input \<Longrightarrow>
   picked input i j' = [] \<or> sum_list (picked input i j') \<noteq> target"
proof (induction "length input - j" arbitrary: j)
  case 0
  then show ?case by simp
next
  case (Suc d)
  then have lt: "j < length input" by simp
  from Suc.prems(1) lt
  have here: "\<not> (picked input i (Suc j) \<noteq> [] \<and> sum_list (picked input i (Suc j)) = target)"
    and rest: "subset_inner input target i (Suc j) (picked input i (Suc j)) = None"
    by (simp_all add: subset_inner_step [OF fit] split: if_splits)
  show ?case
  proof (cases "j' = Suc j")
    case True
    with here show ?thesis by blast
  next
    case False
    with Suc.prems have "Suc j < j'" by simp
    moreover from Suc(2) have "d = length input - Suc j" by simp
    ultimately show ?thesis using Suc(1) rest Suc.prems(3) by blast
  qed
qed

lemma subset_outer_Some:
  "subset_outer largest input target i = Some c \<Longrightarrow>
   \<exists>i'. i \<le> i' \<and> i' < largest \<and> subset_inner input target i' 0 [] = Some c \<and>
     (\<forall>i''. i \<le> i'' \<and> i'' < i' \<longrightarrow> subset_inner input target i'' 0 [] = None)"
proof (induction largest input target i rule: subset_outer.induct)
  case (1 largest input target i)
  from 1(2) have lt: "i < largest"
    by (subst (asm) subset_outer.simps) (simp split: if_splits)
  show ?case
  proof (cases "subset_inner input target i 0 []")
    case None
    with 1(2) lt have "subset_outer largest input target (i + 1) = Some c"
      by (subst (asm) subset_outer.simps) simp
    from 1(1) [OF lt None this] obtain i' where i': "i + 1 \<le> i'" "i' < largest"
      "subset_inner input target i' 0 [] = Some c"
      "\<forall>i''. i + 1 \<le> i'' \<and> i'' < i' \<longrightarrow> subset_inner input target i'' 0 [] = None"
      by blast
    have "subset_inner input target i'' 0 [] = None" if "i \<le> i'' \<and> i'' < i'" for i''
      using that None i'(4) by (cases "i'' = i") simp_all
    with i' show ?thesis by (intro exI [of _ i']) simp
  next
    case (Some a)
    with 1(2) lt have "a = c"
      by (subst (asm) subset_outer.simps) simp
    with Some lt show ?thesis by (intro exI [of _ i]) auto
  qed
qed

lemma subset_outer_first_mask:
  assumes fit: "selections_fit input"
    and run: "subset_outer largest input target 0 = Some c"
  shows "\<exists>m. 0 < m \<and> m < 2 ^ length input \<and> c = subset_of input m \<and> sum_list c = target \<and>
     (\<forall>m'. 0 < m' \<and> m' < m \<longrightarrow> sum_list (subset_of input m') \<noteq> target)"
proof -
  from subset_outer_Some [OF run] obtain i where i: "i < largest"
    "subset_inner input target i 0 [] = Some c"
    "\<forall>i'. i' < i \<longrightarrow> subset_inner input target i' 0 [] = None"
    by auto
  from i(2) have "subset_inner input target i 0 (picked input i 0) = Some c" by simp
  from subset_inner_Some [OF fit this] obtain j where j: "j \<le> length input"
    "c = picked input i j" "c \<noteq> []" "sum_list c = target"
    by blast
  define m where "m = take_bit j i"
  have c: "c = subset_of input m"
    using j(1,2) by (simp add: m_def picked_take_bit)
  have "m \<noteq> 0"
  proof
    assume "m = 0"
    with c j(3) show False by simp
  qed
  then have "0 < m" by simp
  have "m < 2 ^ j" by (simp add: m_def)
  also have "\<dots> \<le> 2 ^ length input" using j(1) by simp
  finally have bound: "m < 2 ^ length input" .
  have "m \<le> i" by (simp add: m_def take_bit_nat_less_eq_self)
  have "sum_list (subset_of input m') \<noteq> target" if "0 < m' \<and> m' < m" for m'
  proof -
    from that \<open>m \<le> i\<close> have "m' < i" by simp
    with i(3) have none: "subset_inner input target m' 0 (picked input m' 0) = None" by simp
    have pos: "0 < length input"
      using \<open>0 < m\<close> bound by (cases "length input") simp_all
    have "picked input m' (length input) = []
        \<or> sum_list (picked input m' (length input)) \<noteq> target"
      using none pos order_refl by (rule subset_inner_None [OF fit])
    then have "subset_of input m' = [] \<or> sum_list (subset_of input m') \<noteq> target"
      by (simp add: picked_all)
    moreover from that bound have "subset_of input m' \<noteq> []"
      by (intro subset_of_nonempty) simp_all
    ultimately show ?thesis by simp
  qed
  with \<open>0 < m\<close> bound c j(4) show ?thesis by (intro exI [of _ m]) simp
qed

lemma subset_outer_skip:
  "i \<le> m \<Longrightarrow> m < largest \<Longrightarrow>
   \<forall>i'. i \<le> i' \<and> i' < m \<longrightarrow> subset_inner input target i' 0 [] = None \<Longrightarrow>
   subset_outer largest input target i =
     (case subset_inner input target m 0 [] of
        Some candidate \<Rightarrow> Some candidate
      | None \<Rightarrow> subset_outer largest input target (m + 1))"
proof (induction "m - i" arbitrary: i)
  case 0
  then have "i = m" by simp
  with 0(3) show ?case by (subst subset_outer.simps) auto
next
  case (Suc d)
  then have lt: "i < m" by simp
  with Suc.prems have none: "subset_inner input target i 0 [] = None" by simp
  from Suc(2) have "d = m - (i + 1)" by simp
  from Suc(1) [OF this] lt Suc.prems
  have "subset_outer largest input target (i + 1) =
     (case subset_inner input target m 0 [] of
        Some candidate \<Rightarrow> Some candidate
      | None \<Rightarrow> subset_outer largest input target (m + 1))"
    by simp
  with none lt Suc.prems(2) show ?case by (subst subset_outer.simps) simp
qed

lemma subset_outer_finds:
  assumes fit: "selections_fit input"
    and m: "0 < m" "m < 2 ^ length input" "m < largest"
    and sum: "sum_list (subset_of input m) = target"
    and least: "\<forall>m'. 0 < m' \<and> m' < m \<longrightarrow> sum_list (subset_of input m') \<noteq> target"
  shows "subset_outer largest input target 0 = Some (subset_of input m)"
proof -
  have pos: "0 < length input"
    using m(1,2) by (cases "length input") simp_all
  have first: "c = subset_of input (take_bit j i) \<and> 0 < take_bit j i \<and> sum_list c = target"
    if "subset_inner input target i 0 [] = Some c" and "j' = j"
      and c: "j \<le> length input" "c = picked input i j" "c \<noteq> []" "sum_list c = target"
    for i c j j'
  proof -
    from c(1,2) have eq: "c = subset_of input (take_bit j i)" by (simp add: picked_take_bit)
    have "take_bit j i \<noteq> 0"
    proof
      assume "take_bit j i = 0"
      with eq c(3) show False by simp
    qed
    with eq c(4) show ?thesis by simp
  qed
  have none: "subset_inner input target i 0 [] = None" if "i < m" for i
  proof (cases "subset_inner input target i 0 []")
    case None
    then show ?thesis .
  next
    case (Some c)
    then have "subset_inner input target i 0 (picked input i 0) = Some c" by simp
    from subset_inner_Some [OF fit this] obtain j where j: "j \<le> length input"
      "c = picked input i j" "c \<noteq> []" "sum_list c = target"
      by blast
    from first [OF Some refl j] have "0 < take_bit j i"
      "sum_list (subset_of input (take_bit j i)) = target"
      by auto
    moreover have "take_bit j i < m"
      using that take_bit_nat_less_eq_self [of j i] by (rule le_less_trans [rotated])
    ultimately show ?thesis using least by blast
  qed
  have "subset_inner input target m 0 [] = Some (subset_of input m)"
  proof (cases "subset_inner input target m 0 []")
    case None
    then have "subset_inner input target m 0 (picked input m 0) = None" by simp
    from subset_inner_None [OF fit this pos order_refl]
    have "subset_of input m = [] \<or> sum_list (subset_of input m) \<noteq> target"
      by (simp add: picked_all)
    with sum subset_of_nonempty [OF m(1,2)] show ?thesis by simp
  next
    case (Some c)
    then have "subset_inner input target m 0 (picked input m 0) = Some c" by simp
    from subset_inner_Some [OF fit this] obtain j where j: "j \<le> length input"
      "c = picked input m j" "c \<noteq> []" "sum_list c = target"
      by blast
    from first [OF Some refl j] have t: "c = subset_of input (take_bit j m)"
      "0 < take_bit j m" "sum_list (subset_of input (take_bit j m)) = target"
      by auto
    have "take_bit j m = m"
    proof (rule ccontr)
      assume "take_bit j m \<noteq> m"
      with take_bit_nat_less_eq_self [of j m] have "take_bit j m < m" by (rule le_neq_trans)
      with t(2,3) least show False by blast
    qed
    with t(1) Some show ?thesis by simp
  qed
  moreover have "\<forall>i'. 0 \<le> i' \<and> i' < m \<longrightarrow> subset_inner input target i' 0 [] = None"
    using none by simp
  ultimately show ?thesis
    using subset_outer_skip [of 0 m largest input target] m(3) by simp
qed

lemma sint_range32: "- (2 ^ 31) \<le> sint w \<and> sint w < 2 ^ 31" for w :: "32 word"
  using sint_ge [of w] sint_lt [of w] by simp

lemma largestInt_cases:
  "largestInt wide n < 2 ^ 31 \<or> 2 ^ 64 - 2 ^ 31 \<le> largestInt wide n"
proof -
  define v where "v = sint (shl_int wide n)"
  have v: "- (2 ^ 31) \<le> v" "v < 2 ^ 31"
    using sint_range32 [of "shl_int wide n"] by (simp_all add: v_def)
  show ?thesis
  proof (cases "0 \<le> v")
    case True
    with v have "v mod 2 ^ 64 = v" by simp
    with v True show ?thesis by (simp add: largestInt_def v_def [symmetric] nat_less_iff)
  next
    case False
    have "v mod 2 ^ 64 = (v + 2 ^ 64) mod 2 ^ 64" by simp
    also have "\<dots> = v + 2 ^ 64" using v False by (intro mod_pos_pos_trivial) simp_all
    finally have "v mod 2 ^ 64 = v + 2 ^ 64" .
    with v show ?thesis by (simp add: largestInt_def v_def [symmetric] le_nat_iff)
  qed
qed

lemma largestInt_63: "largestInt wide 63 \<noteq> 2 ^ 63"
  using largestInt_cases [of wide 63] by auto

lemma sint_shl: "n < 31 \<Longrightarrow> sint (push_bit n 1 :: 32 word) = 2 ^ n"
proof -
  assume n: "n < 31"
  have "(push_bit n 1 :: 32 word) = of_int (2 ^ n)" by (simp add: push_bit_of_1)
  moreover have "(2 :: int) ^ n < 2 ^ 31" using n by (intro power_strict_increasing) simp_all
  moreover have "- (2 ^ 31) \<le> (2 :: int) ^ n"
    by (rule order_trans [of _ 0]) simp_all
  ultimately show ?thesis
    by (simp add: signed_of_int signed_take_bit_int_eq_self del: of_int_power)
qed

lemma largestInt_small: "n < 31 \<Longrightarrow> largestInt wide n = 2 ^ n"
proof -
  assume n: "n < 31"
  have "(2 :: int) ^ n < 2 ^ 64" using n by (intro power_strict_increasing) simp_all
  then have "(2 :: int) ^ n mod 2 ^ 64 = 2 ^ n" by simp
  moreover from n have "shl_int wide n = push_bit n 1" by (simp add: shl_int_def)
  ultimately show ?thesis
    unfolding largestInt_def using n by (simp only: sint_shl) (simp add: nat_power_eq)
qed

lemma largestInt_31: "largestInt wide 31 = 2 ^ 64 - 2 ^ 31"
  by (simp add: largestInt_def shl_int_def)

lemma picked_subseq: "j \<le> length input \<Longrightarrow> subseq (picked input m j) (take j input)"
proof (induction j)
  case 0
  then show ?case by simp
next
  case (Suc j)
  then have ih: "subseq (picked input m j) (take j input)" and lt: "j < length input"
    by simp_all
  from lt have t: "take (Suc j) input = take j input @ [input ! j]"
    by (rule take_Suc_conv_app_nth)
  show ?case
  proof (cases "bit m j")
    case True
    with ih show ?thesis
      unfolding t picked_Suc by (simp add: list_emb_append_mono)
  next
    case False
    with ih show ?thesis
      unfolding t picked_Suc by (simp add: subseq_rev_drop_many)
  qed
qed

lemma subset_of_subseq: "subseq (subset_of input m) input"
  using picked_subseq [of "length input" input m] by (simp add: picked_all)

lemma largestInt_covers: "n < 32 \<Longrightarrow> 2 ^ n \<le> largestInt wide n"
proof (cases "n < 31")
  case True
  then show ?thesis by (simp add: largestInt_small)
next
  case False
  assume "n < 32"
  with False have "n = 31" by simp
  then show ?thesis by (simp add: largestInt_31)
qed

lemma subseq_sum_abs:
  "subseq xs ys \<Longrightarrow> sum_list (map abs xs) \<le> sum_list (map abs ys)" for xs ys :: "int list"
proof (induction rule: list_emb.induct)
  case (list_emb_Nil ys)
  have "0 \<le> sum_list (map abs ys)" by (rule sum_list_nonneg) auto
  then show ?case by simp
next
  case (list_emb_Cons xs ys y)
  then show ?case by simp
next
  case (list_emb_Cons2 x y xs ys)
  then show ?case by simp
qed

lemma selections_fit_abs:
  assumes "sum_list (map abs input) \<le> 2147483647"
  shows "selections_fit input"
  unfolding selections_fit_def int_range_def
proof (intro allI impI)
  fix m
  have "\<bar>sum_list (subset_of input m)\<bar> \<le> sum_list (map abs input)"
    using abs_sum_list_le [of "subset_of input m"]
      subseq_sum_abs [OF subset_of_subseq, of input m] by linarith
  with assms show "- 2147483648 \<le> sum_list (subset_of input m)
      \<and> sum_list (subset_of input m) \<le> 2147483647"
    by linarith
qed

lemma subset_sum_exh_outer:
  "input \<noteq> [] \<Longrightarrow> length input < 64 \<Longrightarrow>
   subset_sum_exh wide input target =
     Inr (subset_outer (largestInt wide (length input)) input target 0)"
  by (simp add: subset_sum_exh_def)

lemma sum_list_zeros: "\<forall>x\<in>set xs. x = 0 \<Longrightarrow> sum_list xs = 0" for xs :: "int list"
  by (induction xs) simp_all

text \<open>
  Without the assumption the sum of a candidate wraps: the two elements of
  \<open>[2147483647, 1]\<close> add up to \<open>2\<^sup>3\<^sup>1\<close> and are returned for the target \<open>-2\<^sup>3\<^sup>1\<close>.
\<close>

lemma subset_sum_exh_wraps:
  "subset_sum_exh wide [2147483647, 1] (- 2147483648) = Inr (Some [2147483647, 1])"
  by (simp add: subset_sum_exh_def largestInt_def shl_int_def subset_outer.simps
      subset_inner.simps drop_bit_eq_div int32_def)

text \<open>
  C4. For a non-empty input of fewer than 64 elements whose selection totals all lie in the
  range of an \<^verbatim>\<open>int\<close>, a present result of \<^verbatim>\<open>subset_sum_exh\<close> is the selection of the
  numerically smallest bitmask whose selected elements sum to the target, among the
  non-zero masks that the search admits (the empty selection of the mask 0 is rejected
  before the masks are compared); it is built by ascending bit position, so it is a
  subsequence of the input.
\<close>

theorem subset_sum_exh_smallest_nonzero_mask:
  assumes "input \<noteq> []" and "length input < 64" and "selections_fit input"
    and "subset_sum_exh wide input target = Inr (Some c)"
  shows "\<exists>m. 0 < m \<and> m < 2 ^ length input \<and> c = subset_of input m \<and> sum_list c = target
           \<and> (\<forall>m'. 0 < m' \<and> m' < m \<longrightarrow> sum_list (subset_of input m') \<noteq> target)
           \<and> subseq c input"
proof -
  from assms have "subset_outer (largestInt wide (length input)) input target 0 = Some c"
    by (simp add: subset_sum_exh_outer)
  from subset_outer_first_mask [OF assms(3) this] obtain m where m: "0 < m"
    "m < 2 ^ length input" "c = subset_of input m" "sum_list c = target"
    "\<forall>m'. 0 < m' \<and> m' < m \<longrightarrow> sum_list (subset_of input m') \<noteq> target"
    by blast
  moreover from m(3) have "subseq c input" by (simp add: subset_of_subseq)
  ultimately show ?thesis by blast
qed

theorem subset_sum_exh_smallest_nonzero_mask_witness:
  "[3, 34, 4, 12, 5, 2] \<noteq> ([] :: int list) \<and> length [3, 34, 4, 12, 5, 2 :: int] < 64
   \<and> selections_fit [3, 34, 4, 12, 5, 2]
   \<and> subset_sum_exh (\<lambda>_. 0) [3, 34, 4, 12, 5, 2] 9 = Inr (Some [4, 5])
   \<and> (\<exists>m. 0 < m \<and> m < 2 ^ length [3, 34, 4, 12, 5, 2 :: int]
         \<and> [4, 5] = subset_of [3, 34, 4, 12, 5, 2] m \<and> sum_list [4, 5] = (9 :: int)
         \<and> (\<forall>m'. 0 < m' \<and> m' < m \<longrightarrow> sum_list (subset_of [3, 34, 4, 12, 5, 2] m') \<noteq> 9)
         \<and> subseq [4, 5] [3, 34, 4, 12, 5, 2 :: int])"
proof -
  have ne: "[3, 34, 4, 12, 5, 2] \<noteq> ([] :: int list)"
    and len: "length [3, 34, 4, 12, 5, 2 :: int] < 64"
    by simp_all
  have fit: "selections_fit [3, 34, 4, 12, 5, 2]"
    by (rule selections_fit_abs) simp
  have run: "subset_sum_exh (\<lambda>_. 0) [3, 34, 4, 12, 5, 2] 9 = Inr (Some [4, 5])"
    by (simp add: subset_sum_exh_def largestInt_def shl_int_def subset_outer.simps
        subset_inner.simps drop_bit_eq_div int32_def)
  from subset_sum_exh_smallest_nonzero_mask [OF ne len fit run] ne len fit run
  show ?thesis by (intro conjI)
qed

text \<open>
  C7. For a non-empty input of fewer than 64 elements \<^verbatim>\<open>subset_sum_exh\<close> never returns the
  empty selection, whatever the target. When the selection totals all lie in the range of
  an \<^verbatim>\<open>int\<close>: if no non-empty selection sums to the target (the empty one is the only
  candidate left) the result is the absent optional; and if a non-zero mask that the
  enumeration reaches selects zeros only, the result for the target 0 is present, non-empty
  and sums to 0, and it is that selection of zeros when no smaller non-zero mask sums to 0.
\<close>

theorem subset_sum_exh_never_empty:
  assumes "input \<noteq> []" and "length input < 64"
  shows "subset_sum_exh wide input target \<noteq> Inr (Some [])
     \<and> (selections_fit input \<longrightarrow>
          ((\<forall>m. 0 < m \<and> m < 2 ^ length input \<longrightarrow> sum_list (subset_of input m) \<noteq> target)
             \<longrightarrow> subset_sum_exh wide input target = Inr None)
          \<and> (\<forall>m. 0 < m \<and> m < 2 ^ length input \<and> m < largestInt wide (length input)
                 \<and> (\<forall>x\<in>set (subset_of input m). x = 0) \<longrightarrow>
               (\<exists>c. subset_sum_exh wide input 0 = Inr (Some c) \<and> c \<noteq> [] \<and> sum_list c = 0
                  \<and> ((\<forall>m'. 0 < m' \<and> m' < m \<longrightarrow> sum_list (subset_of input m') \<noteq> 0)
                       \<longrightarrow> c = subset_of input m))))"
proof (intro conjI impI allI)
  let ?L = "largestInt wide (length input)"
  have run: "subset_sum_exh wide input t = Inr (subset_outer ?L input t 0)" for t
    using assms by (rule subset_sum_exh_outer)
  show "subset_sum_exh wide input target \<noteq> Inr (Some [])"
  proof
    assume "subset_sum_exh wide input target = Inr (Some [])"
    with run have "subset_outer ?L input target 0 = Some []" by simp
    from subset_outer_Some [OF this] obtain i where "subset_inner input target i 0 [] = Some []"
      by blast
    from subset_inner_nonempty [OF this] show False by simp
  qed
next
  let ?L = "largestInt wide (length input)"
  have run: "subset_sum_exh wide input t = Inr (subset_outer ?L input t 0)" for t
    using assms by (rule subset_sum_exh_outer)
  assume fit: "selections_fit input"
    and none: "\<forall>m. 0 < m \<and> m < 2 ^ length input \<longrightarrow> sum_list (subset_of input m) \<noteq> target"
  show "subset_sum_exh wide input target = Inr None"
  proof (cases "subset_outer ?L input target 0")
    case None
    with run show ?thesis by simp
  next
    case (Some c)
    from subset_outer_first_mask [OF fit this] none show ?thesis by blast
  qed
next
  fix m
  let ?L = "largestInt wide (length input)"
  have run: "subset_sum_exh wide input t = Inr (subset_outer ?L input t 0)" for t
    using assms by (rule subset_sum_exh_outer)
  assume fit: "selections_fit input"
    and m: "0 < m \<and> m < 2 ^ length input \<and> m < ?L \<and> (\<forall>x\<in>set (subset_of input m). x = 0)"
  then have zero: "sum_list (subset_of input m) = 0" by (simp add: sum_list_zeros)
  define P where "P k \<longleftrightarrow> 0 < k \<and> sum_list (subset_of input k) = 0" for k
  define m0 where "m0 = (LEAST k. P k)"
  have "P m" using m zero by (simp add: P_def)
  then have "P m0" and le: "m0 \<le> m"
    unfolding m0_def by (rule LeastI, rule Least_le)
  have least: "\<forall>m'. 0 < m' \<and> m' < m0 \<longrightarrow> sum_list (subset_of input m') \<noteq> 0"
    using not_less_Least [of _ P] by (auto simp: m0_def P_def)
  from \<open>P m0\<close> le m have m0: "0 < m0" "m0 < 2 ^ length input" "m0 < ?L"
    "sum_list (subset_of input m0) = 0"
    by (simp_all add: P_def)
  have found: "subset_outer ?L input 0 0 = Some (subset_of input m0)"
    using fit m0 least by (rule subset_outer_finds)
  have same: "subset_of input m0 = subset_of input m"
    if "\<forall>m'. 0 < m' \<and> m' < m \<longrightarrow> sum_list (subset_of input m') \<noteq> 0"
  proof -
    from that m0(1,4) have "\<not> m0 < m" by blast
    with le show ?thesis by simp
  qed
  show "\<exists>c. subset_sum_exh wide input 0 = Inr (Some c) \<and> c \<noteq> [] \<and> sum_list c = 0
      \<and> ((\<forall>m'. 0 < m' \<and> m' < m \<longrightarrow> sum_list (subset_of input m') \<noteq> 0)
           \<longrightarrow> c = subset_of input m)"
    using run [of 0] found m0(4) subset_of_nonempty [OF m0(1,2)] same
    by (intro exI [of _ "subset_of input m0"]) simp
qed

theorem subset_sum_exh_never_empty_witness:
  "[3, 0] \<noteq> ([] :: int list) \<and> length [3, 0 :: int] < 64 \<and> selections_fit [3, 0]
   \<and> subset_sum_exh (\<lambda>_. 0) [3, 0] 0 \<noteq> Inr (Some [])
   \<and> subset_sum_exh (\<lambda>_. 0) [3, 0] 7 = Inr None
   \<and> (2 :: nat) < largestInt (\<lambda>_. 0) (length [3, 0 :: int])
   \<and> subset_of [3, 0] 2 = [0]
   \<and> subset_sum_exh (\<lambda>_. 0) [3, 0] 0 = Inr (Some [0])"
proof -
  have ne: "[3, 0] \<noteq> ([] :: int list)" and len: "length [3, 0 :: int] < 64"
    by simp_all
  have fit: "selections_fit [3, 0]"
    by (rule selections_fit_abs) simp
  have s1: "subset_of [3, 0] 1 = [3]" and s2: "subset_of [3, 0] 2 = [0]"
    and s3: "subset_of [3, 0] 3 = [3, 0]"
    by (simp_all add: subset_of_def bit_0 bit_Suc upt_rec)
  have masks: "m = 1 \<or> m = 2 \<or> m = 3" if "0 < m \<and> m < 2 ^ length [3, 0 :: int]" for m :: nat
    using that by auto
  have bound: "(2 :: nat) < largestInt (\<lambda>_. 0) (length [3, 0 :: int])"
    by (simp add: largestInt_small)
  note inst = subset_sum_exh_never_empty [OF ne len, of "\<lambda>_. 0"]
  have a: "subset_sum_exh (\<lambda>_. 0) [3, 0] 0 \<noteq> Inr (Some [])"
    using inst [of 0] by blast
  have "\<forall>m. 0 < m \<and> m < 2 ^ length [3, 0 :: int] \<longrightarrow> sum_list (subset_of [3, 0] m) \<noteq> 7"
    using masks s1 s2 s3 by fastforce
  with inst [of 7] fit have b: "subset_sum_exh (\<lambda>_. 0) [3, 0] 7 = Inr None"
    by blast
  have "\<forall>m'. 0 < m' \<and> m' < (2 :: nat) \<longrightarrow> sum_list (subset_of [3, 0] m') \<noteq> 0"
  proof (intro allI impI)
    fix m' :: nat assume "0 < m' \<and> m' < 2"
    then have "m' = 1" by simp
    with s1 show "sum_list (subset_of [3, 0] m') \<noteq> 0" by simp
  qed
  moreover have "0 < (2 :: nat) \<and> (2 :: nat) < 2 ^ length [3, 0 :: int]
      \<and> 2 < largestInt (\<lambda>_. 0) (length [3, 0 :: int])
      \<and> (\<forall>x\<in>set (subset_of [3, 0] 2). x = 0)"
    using bound s2 by simp
  ultimately have c: "subset_sum_exh (\<lambda>_. 0) [3, 0] 0 = Inr (Some [0])"
    using inst [of 0] fit s2 by (metis sum.inject(2) option.inject)
  from ne len fit a b bound s2 c show ?thesis by (intro conjI)
qed

text \<open>
  C5. With exactly 63 elements the enumeration is to cover all \<open>2\<^sup>6\<^sup>3\<close> masks without
  overflow. The bound is computed by \<^verbatim>\<open>1 << input.size()\<close> in a 32-bit \<^verbatim>\<open>int\<close>: whatever the
  shift by 63 yields, the bound is not \<open>2\<^sup>6\<^sup>3\<close>. Where the shift yields 0, the input of 62 zeros
  followed by 1, with the target 1, gives the absent result although the selection of the
  mask \<open>2\<^sup>6\<^sup>2\<close> is \<open>[1]\<close>.
\<close>

theorem subset_sum_exh_63_elements:
  "largestInt wide 63 \<noteq> 2 ^ 63
   \<and> length (replicate 62 0 @ [1 :: int]) = 63
   \<and> subset_of (replicate 62 0 @ [1]) (2 ^ 62) = [1]
   \<and> subset_sum_exh (\<lambda>_. 0) (replicate 62 0 @ [1]) 1 = Inr None"
proof -
  have "largestInt wide 63 \<noteq> 2 ^ 63"
    by (rule largestInt_63)
  moreover have "length (replicate 62 0 @ [1 :: int]) = 63"
    by simp
  moreover have "subset_of (replicate 62 0 @ [1]) (2 ^ 62) = [1]"
    by (simp add: subset_of_def bit_exp_iff upt_rec nth_append bit_0)
  moreover have "subset_sum_exh (\<lambda>_. 0) (replicate 62 0 @ [1]) 1 = Inr None"
    by (simp add: subset_sum_exh_def largestInt_def shl_int_def subset_outer.simps)
  ultimately show ?thesis by (intro conjI)
qed

end
